theory Spec2Isabelle
  imports Main "HOL-Library.Sublist"
begin

section \<open>Strings\<close>

text \<open>
  Go strings are byte sequences; they are modelled as \<open>char list\<close>.  The functions of
  package \<open>strings\<close> that the program calls are written out below.
\<close>

abbreviation NL :: char where "NL \<equiv> CHR 0x0A"
abbreviation CR :: char where "CR \<equiv> CHR 0x0D"
abbreviation TAB :: char where "TAB \<equiv> CHR 0x09"
abbreviation FF :: char where "FF \<equiv> CHR 0x0C"
abbreviation SP :: char where "SP \<equiv> CHR 0x20"
abbreviation DQ :: char where "DQ \<equiv> CHR 0x22"
abbreviation BQ :: char where "BQ \<equiv> CHR 0x60"

text \<open>\<open>strings.Replace(s, "\r", "", -1)\<close>: every carriage return is dropped.\<close>

definition removeCR :: "string \<Rightarrow> string" where
  "removeCR s = filter (\<lambda>c. c \<noteq> CR) s"

text \<open>\<open>strings.Split(s, "\n")\<close>: the pieces between line feeds; never the empty list.\<close>

fun splitNL :: "string \<Rightarrow> string list" where
  "splitNL [] = [[]]"
| "splitNL (c # cs) =
     (if c = NL then [] # splitNL cs
      else (case splitNL cs of [] \<Rightarrow> [[c]] | l # ls \<Rightarrow> (c # l) # ls))"

text \<open>\<open>strings.Trim(s, cutset)\<close>: leading and trailing bytes of the cutset removed.\<close>

definition trim :: "string \<Rightarrow> string \<Rightarrow> string" where
  "trim s cutset =
     rev (dropWhile (\<lambda>c. c \<in> set cutset) (rev (dropWhile (\<lambda>c. c \<in> set cutset) s)))"

text \<open>\<open>strings.Index(s, sub) >= 0\<close>.\<close>

fun contains :: "string \<Rightarrow> string \<Rightarrow> bool" where
  "contains [] sub = (sub = [])"
| "contains (c # cs) sub = (prefix sub (c # cs) \<or> contains cs sub)"

text \<open>
  \<open>strings.Replace(s, ".html", ".hyperesources", -1)\<close>: the non-overlapping occurrences
  of \<open>.html\<close>, from the left, are replaced.
\<close>

fun replaceHtml :: "string \<Rightarrow> string" where
  "replaceHtml [] = []"
| "replaceHtml (c # cs) =
     (if prefix ''.html'' (c # cs) then ''.hyperesources'' @ replaceHtml (drop 4 cs)
      else c # replaceHtml cs)"

section \<open>Regular expressions\<close>

text \<open>
  Package \<open>regexp\<close> matches leftmost-first: the match begins as early as possible, and
  among the matches beginning there it is the one a backtracking search finds first.
  The matcher below returns, for an expression and a start, the list of ways to match in
  exactly that order of preference.  Repetition is applied to single characters and
  classes only, which is all the program's patterns use.

  A thread is the offset reached, the text that remains and the captured groups.
  Offsets count bytes.  The classes of the program's patterns are ASCII, so on UTF-8
  text a byte-wise match captures the same group and leaves the same remainder as
  the rune-wise match.
\<close>

datatype atom = Lit char | Cls "char list" | NCls "char list"

fun accepts :: "atom \<Rightarrow> char \<Rightarrow> bool" where
  "accepts (Lit c) x = (x = c)"
| "accepts (Cls cs) x = (x \<in> set cs)"
| "accepts (NCls cs) x = (x \<notin> set cs)"

datatype re =
    Eps
  | One atom
  | Opt atom
  | Star atom
  | Plus atom
  | Seq re re
  | Alt re re
  | Grp nat re
  | Bol
  | Eol

type_synonym thread = "nat \<times> string \<times> string list"

text \<open>Greedy repetition: the longest run first, then each shorter one.\<close>

fun star :: "atom \<Rightarrow> nat \<Rightarrow> string \<Rightarrow> string list \<Rightarrow> thread list" where
  "star a i [] g = [(i, [], g)]"
| "star a i (c # cs) g =
     (if accepts a c then star a (Suc i) cs g else []) @ [(i, c # cs, g)]"

fun one :: "atom \<Rightarrow> nat \<Rightarrow> string \<Rightarrow> string list \<Rightarrow> thread list" where
  "one a i [] g = []"
| "one a i (c # cs) g = (if accepts a c then [(Suc i, cs, g)] else [])"

fun run :: "re \<Rightarrow> thread \<Rightarrow> thread list" where
  "run Eps t = [t]"
| "run (One a) (i, s, g) = one a i s g"
| "run (Opt a) (i, s, g) = one a i s g @ [(i, s, g)]"
| "run (Star a) (i, s, g) = star a i s g"
| "run (Plus a) (i, s, g) = concat (map (\<lambda>(j, s', g'). star a j s' g') (one a i s g))"
| "run (Seq r1 r2) t = concat (map (run r2) (run r1 t))"
| "run (Alt r1 r2) t = run r1 t @ run r2 t"
| "run (Grp k r) (i, s, g) =
     map (\<lambda>(j, s', g'). (j, s', g'[k := take (j - i) s])) (run r (i, s, g))"
| "run Bol (i, s, g) = (if i = 0 then [(i, s, g)] else [])"
| "run Eol (i, s, g) = (if s = [] then [(i, s, g)] else [])"

text \<open>The number of capture groups (\<open>NumSubexp\<close>); groups are numbered from 0 here.\<close>

fun ngroups :: "re \<Rightarrow> nat" where
  "ngroups (Seq r1 r2) = ngroups r1 + ngroups r2"
| "ngroups (Alt r1 r2) = ngroups r1 + ngroups r2"
| "ngroups (Grp k r) = Suc (ngroups r)"
| "ngroups r = 0"

text \<open>The leftmost start at which the expression matches, with its preferred match.\<close>

fun search :: "re \<Rightarrow> nat \<Rightarrow> string \<Rightarrow> string list \<Rightarrow> (nat \<times> thread) option" where
  "search r i [] g = (case run r (i, [], g) of [] \<Rightarrow> None | t # _ \<Rightarrow> Some (i, t))"
| "search r i (c # cs) g =
     (case run r (i, c # cs, g) of [] \<Rightarrow> search r (Suc i) cs g | t # _ \<Rightarrow> Some (i, t))"

text \<open>
  \<open>doExecute\<close> looks for a match in \<open>src\<close> from offset \<open>pos\<close> on; \<open>^\<close> holds at offset
  0 of \<open>src\<close> only.
\<close>

definition doExecute :: "re \<Rightarrow> string \<Rightarrow> nat \<Rightarrow> (nat \<times> thread) option" where
  "doExecute r src pos = search r pos (drop pos src) (replicate (ngroups r) [])"

definition FindString :: "re \<Rightarrow> string \<Rightarrow> string" where
  "FindString r s =
     (case doExecute r s 0 of None \<Rightarrow> [] | Some (a, b, _, _) \<Rightarrow> take (b - a) (drop a s))"

text \<open>
  \<open>FindStringSubmatch\<close>: the empty slice when nothing matches, else the match followed
  by the text of each group.
\<close>

definition FindStringSubmatch :: "re \<Rightarrow> string \<Rightarrow> string list" where
  "FindStringSubmatch r s =
     (case doExecute r s 0 of None \<Rightarrow> []
      | Some (a, b, _, g) \<Rightarrow> take (b - a) (drop a s) # g)"

text \<open>Building expressions: a sequence of parts, a literal string.\<close>

definition seqs :: "re list \<Rightarrow> re" where
  "seqs rs = foldr Seq rs Eps"

definition lit :: "string \<Rightarrow> re" where
  "lit s = seqs (map (\<lambda>c. One (Lit c)) s)"

text \<open>\<open>\s\<close> is \<open>[\t\n\f\r ]\<close>.\<close>

definition ws :: atom where
  "ws = Cls [TAB, NL, FF, CR, SP]"

section \<open>The program's patterns\<close>

text \<open>\<^verbatim>\<open>^\s*//\s?\<close>\<close>

definition commentPtrn :: re where
  "commentPtrn = seqs [Bol, Star ws, lit ''//'', Opt ws]"

text \<open>\<^verbatim>\<open>^\s*/\*\s?\<close>\<close>

definition commentStartPtrn :: re where
  "commentStartPtrn = seqs [Bol, Star ws, lit ''/*'', Opt ws]"

text \<open>\<^verbatim>\<open>\s?\*/\s*$\<close>\<close>

definition commentEndPtrn :: re where
  "commentEndPtrn = seqs [Opt ws, lit ''*/'', Star ws, Eol]"

text \<open>\<^verbatim>\<open>^//go:\<close>\<close>

definition directivePtrn :: re where
  "directivePtrn = seqs [Bol, lit ''//go:'']"

text \<open>\<^verbatim>\<open>[^\x60]!\[[^\]]+\]\( *([^"\)]+) *["\)]\<close>\<close>

definition imagePtrn :: re where
  "imagePtrn = seqs [One (NCls [BQ]), lit ''!['', Plus (NCls '']''), lit '']('',
                     Star (Lit SP), Grp 0 (Plus (NCls [DQ, CHR '')''])), Star (Lit SP),
                     One (Cls [DQ, CHR '')''])]"

text \<open>\<^verbatim>\<open>[^\x60]HYPE\[[^\]]+\]\( *([^\)]+) *\)\<close>\<close>

definition hypePtrn :: re where
  "hypePtrn = seqs [One (NCls [BQ]), lit ''HYPE['', Plus (NCls '']''), lit '']('',
                    Star (Lit SP), Grp 0 (Plus (NCls '')'')), Star (Lit SP),
                    One (Lit (CHR '')''))]"

definition allCommentDelims :: re where
  "allCommentDelims = Alt commentPtrn (Alt commentStartPtrn commentEndPtrn)"

section \<open>The classifier\<close>

text \<open>
  \<open>commentFinder\<close> returns a closure over the flag \<open>commentSectionInProgress\<close>.  The
  closure is modelled as a function of the flag and the line that returns its result
  and the flag it leaves.
\<close>

definition commentFinder :: "bool \<Rightarrow> string \<Rightarrow> bool \<times> bool" where
  "commentFinder commentSectionInProgress line =
     (if FindString commentPtrn line \<noteq> [] then (True, commentSectionInProgress)
      else if FindString commentStartPtrn line \<noteq> [] then (True, True)
      else if FindString commentEndPtrn line \<noteq> [] then (True, False)
      else if commentSectionInProgress then (True, commentSectionInProgress)
      else (False, commentSectionInProgress))"

definition isDirective :: "string \<Rightarrow> bool" where
  "isDirective line = (FindString directivePtrn line \<noteq> [])"

section \<open>Replacing all matches\<close>

text \<open>
  \<open>ReplaceAllString(src, repl)\<close> for a replacement without \<open>$\<close>: the loop of
  \<open>Regexp.replaceAll\<close>.  \<open>width\<close> is the width of the character at \<open>searchPos\<close>,
  0 at the end of \<open>src\<close>; it only matters after an empty match.
\<close>

function replaceLoop :: "re \<Rightarrow> string \<Rightarrow> string \<Rightarrow> nat \<Rightarrow> nat \<Rightarrow> string \<Rightarrow> string" where
  "replaceLoop r src repl lastMatchEnd searchPos buf =
     (if searchPos \<le> length src then
        (case doExecute r src searchPos of
           None \<Rightarrow> buf @ drop lastMatchEnd src
         | Some (a0, a1, _, _) \<Rightarrow>
             (let buf1 = buf @ take (a0 - lastMatchEnd) (drop lastMatchEnd src);
                  buf2 = (if a1 > lastMatchEnd \<or> a0 = 0 then buf1 @ repl else buf1);
                  width = (if searchPos < length src then 1 else 0);
                  searchPos' = (if searchPos + width > a1 then searchPos + width
                                else if searchPos + 1 > a1 then searchPos + 1
                                else a1)
              in replaceLoop r src repl a1 searchPos' buf2))
      else buf @ drop lastMatchEnd src)"
  by pat_completeness auto
termination
proof -
  have star_le: "\<And>a i s g t. t \<in> set (star a i s g) \<Longrightarrow> i \<le> fst t"
  proof -
    fix a i s g t
    show "t \<in> set (star a i s g) \<Longrightarrow> i \<le> fst t"
      by (induction s arbitrary: i) (fastforce split: if_splits)+
  qed
  have one_le: "\<And>a i s g t. t \<in> set (one a i s g) \<Longrightarrow> i \<le> fst t"
  proof -
    fix a i s g t
    show "t \<in> set (one a i s g) \<Longrightarrow> i \<le> fst t"
      by (cases s) (auto split: if_splits)
  qed
  have run_le: "\<And>r t u. u \<in> set (run r t) \<Longrightarrow> fst t \<le> fst u"
  proof -
    fix r t u
    show "u \<in> set (run r t) \<Longrightarrow> fst t \<le> fst u"
    proof (induction r arbitrary: t u)
      case (Plus a)
      obtain i s g where t: "t = (i, s, g)" by (cases t) auto
      from Plus t obtain v where v: "v \<in> set (one a i s g)"
        and u: "u \<in> set (star a (fst v) (fst (snd v)) (snd (snd v)))"
        by (auto simp: case_prod_beta)
      from one_le [OF v] star_le [OF u] show ?case by (simp add: t)
    next
      case (Seq r1 r2)
      then obtain v where "v \<in> set (run r1 t)" "u \<in> set (run r2 v)" by auto
      with Seq.IH show ?case by (meson le_trans)
    next
      case (Grp k r)
      obtain i s g where t: "t = (i, s, g)" by (cases t) auto
      from Grp.prems t obtain v where "v \<in> set (run r (i, s, g))" "fst u = fst v"
        by (auto simp: case_prod_beta)
      with Grp.IH [of v "(i, s, g)"] show ?case by (simp add: t)
    qed (cases t; auto dest: star_le one_le split: if_splits)+
  qed
  have search_le: "\<And>r i s g a t. search r i s g = Some (a, t) \<Longrightarrow> i \<le> a \<and> a \<le> fst t"
  proof -
    fix r i s g a t
    show "search r i s g = Some (a, t) \<Longrightarrow> i \<le> a \<and> a \<le> fst t"
    proof (induction s arbitrary: i)
      case Nil
      then show ?case
        using run_le [of t r "(i, [], g)"] by (auto split: list.splits)
    next
      case (Cons c cs)
      show ?case
      proof (cases "run r (i, c # cs, g)")
        case Nil
        with Cons.prems have "search r (Suc i) cs g = Some (a, t)" by simp
        from Cons.IH [OF this] show ?thesis by simp
      next
        case (Cons v vs)
        with Cons.prems have "a = i" "t = v" by auto
        with Cons run_le [of t r "(i, c # cs, g)"] show ?thesis by simp
      qed
    qed
  qed
  show ?thesis
  proof (relation "measure (\<lambda>(r, src, repl, lastMatchEnd, searchPos, buf). Suc (length src) - searchPos)")
    show "wf (measure (\<lambda>(r, src, repl, lastMatchEnd, searchPos, buf). Suc (length src) - searchPos))"
      by simp
  next
    fix r src repl lastMatchEnd searchPos buf x2 x y xa ya xb yb xc xd xe xf
    assume le: "searchPos \<le> length src"
      and ex: "doExecute r src searchPos = Some x2"
      and x2: "(x, y) = x2" "(xa, ya) = y" "(xb, yb) = ya"
      and xf: "xf = (if xa < searchPos + xe then searchPos + xe
                     else if xa < searchPos + 1 then searchPos + 1 else xa)"
      and xe: "xe = (if searchPos < length src then 1 else 0)"
    from ex x2 have "search r searchPos (drop searchPos src) (replicate (ngroups r) []) = Some (x, xa, ya)"
      by (auto simp: doExecute_def)
    from search_le [OF this] have "searchPos \<le> xa" by simp
    with le xf xe show "((r, src, repl, xa, xf, xd), r, src, repl, lastMatchEnd, searchPos, buf)
        \<in> measure (\<lambda>(r, src, repl, lastMatchEnd, searchPos, buf). Suc (length src) - searchPos)"
      by (auto split: if_splits)
  qed
qed

definition ReplaceAllString :: "re \<Rightarrow> string \<Rightarrow> string \<Rightarrow> string" where
  "ReplaceAllString r src repl = replaceLoop r src repl 0 0 []"

section \<open>Tag extraction\<close>

text \<open>
  Errors are values.  The program builds messages with \<open>errors.New\<close>; each kind of
  message is a constructor, holding the line or path it quotes and, for the two
  wrappers of \<open>convert\<close>, the error wrapped.
\<close>

datatype error =
    ImageNoValidPath string
  | HypeNoValidPath string
  | UnableToOpenHypeFile string
  | UnableToExtractMediaPath string error
  | FailedGeneratingHypeTag string error

definition extractMediaPath :: "string \<Rightarrow> error + string" where
  "extractMediaPath line =
     (let matches = FindStringSubmatch imagePtrn line in
      if length matches = 0 then Inr []
      else if length matches = 1 then Inl (ImageNoValidPath line)
      else Inr (trim (matches ! 1) [SP, TAB]))"

text \<open>
  The file system is a map from a path to the content \<open>ioutil.ReadFile\<close> returns;
  a path outside its domain cannot be read.
\<close>

type_synonym files = "string \<Rightarrow> string option"

definition startMarker :: string where
  "startMarker = ''<!-- copy these lines to your document: -->''"

definition endMarker :: string where
  "endMarker = ''<!-- end copy -->''"

text \<open>
  The loop of \<open>getHTMLSnippet\<close> over the lines, with the flag \<open>inSnippet\<close> and the
  text gathered so far; \<open>break\<close> returns what has been gathered.  The cutset of the
  \<open>Trim\<close> is a tab written twice.
\<close>

fun snippetLoop :: "bool \<Rightarrow> string \<Rightarrow> string list \<Rightarrow> string" where
  "snippetLoop inSnippet out [] = out"
| "snippetLoop inSnippet out (line # lines) =
     (if contains line startMarker then snippetLoop True out lines
      else if contains line endMarker then
        (if inSnippet then out else snippetLoop False out lines)
      else if inSnippet then snippetLoop inSnippet (out @ trim line [TAB, TAB] @ [NL]) lines
      else snippetLoop inSnippet out lines)"

definition getHTMLSnippet :: "files \<Rightarrow> string \<Rightarrow> error + string" where
  "getHTMLSnippet fs path =
     (case fs path of
        None \<Rightarrow> Inl (UnableToOpenHypeFile path)
      | Some hypeHTML \<Rightarrow> Inr (snippetLoop False [] (splitNL (removeCR hypeHTML)) @ [NL]))"

definition replaceHypeTag :: "files \<Rightarrow> string \<Rightarrow> error + string \<times> string" where
  "replaceHypeTag fs line =
     (let matches = FindStringSubmatch hypePtrn line in
      if length matches = 0 then Inr (line, [])
      else if length matches = 1 then Inl (HypeNoValidPath line)
      else (let path = matches ! 1 in
            case getHTMLSnippet fs path of
              Inl err \<Rightarrow> Inl err
            | Inr out \<Rightarrow> Inr (out, replaceHtml path)))"

section \<open>The converter\<close>

datatype lastKind = neither | comment | code

text \<open>
  The variables of \<open>convert\<close>'s loop, and with them the flag of the package-level
  closure \<open>isInComment\<close>, which the loop reads and writes through its calls.
\<close>

record cstate =
  lastLine :: lastKind
  out :: string
  media :: "string set"
  inComment :: bool

text \<open>One pass of the loop body.\<close>

definition convertLine :: "files \<Rightarrow> cstate \<Rightarrow> string \<Rightarrow> error + cstate" where
  "convertLine fs st line =
     (if isDirective line then Inr st
      else
        (let (isIn, flag) = commentFinder (inComment st) line;
             st0 = st\<lparr>inComment := flag\<rparr>
         in if isIn then
              (let st1 = (if lastLine st0 = code then st0\<lparr>out := out st0 @ ''```'' @ [NL, NL]\<rparr> else st0);
                   st2 = st1\<lparr>lastLine := comment\<rparr>
               in case extractMediaPath line of
                    Inl err \<Rightarrow> Inl (UnableToExtractMediaPath line err)
                  | Inr path \<Rightarrow>
                      (let st3 = (if path \<noteq> [] then st2\<lparr>media := insert path (media st2)\<rparr> else st2)
                       in case replaceHypeTag fs line of
                            Inl err \<Rightarrow> Inl (FailedGeneratingHypeTag line err)
                          | Inr (repl, hpath) \<Rightarrow>
                              if repl \<noteq> [] \<and> hpath \<noteq> [] then
                                Inr (st3\<lparr>out := out st3 @ repl, media := insert hpath (media st3)\<rparr>)
                              else
                                Inr (st3\<lparr>out := out st3 @ ReplaceAllString allCommentDelims line [] @ [NL]\<rparr>)))
            else
              (let st1 = (if lastLine st0 = comment \<and> length line > 0
                          then st0\<lparr>lastLine := code, out := out st0 @ [NL] @ ''```go'' @ [NL]\<rparr>
                          else st0)
               in Inr (st1\<lparr>out := out st1 @ line @ [NL]\<rparr>))))"

text \<open>The loop: it stops at the first error.\<close>

fun convertLines :: "files \<Rightarrow> cstate \<Rightarrow> string list \<Rightarrow> error + cstate" where
  "convertLines fs st [] = Inr st"
| "convertLines fs st (line # lines) =
     (case convertLine fs st line of
        Inl err \<Rightarrow> Inl err
      | Inr st' \<Rightarrow> convertLines fs st' lines)"

text \<open>
  \<open>convert\<close>, given the flag the closure holds when it is called; it returns the text,
  the media set and the flag the closure is left with.  The closure is the value of the
  package-level variable \<open>isInComment\<close>: \<open>commentFinder\<close> is called once, when
  the program starts, and clears the flag then.  So the first conversion of a run is
  \<open>convert fs False\<close>, and each later one starts from the flag the one before it
  returned, whatever files have been written in between.
\<close>

definition convert :: "files \<Rightarrow> bool \<Rightarrow> string \<Rightarrow> error + string \<times> string set \<times> bool" where
  "convert fs flag inp =
     (case convertLines fs \<lparr>lastLine = neither, out = [], media = {}, inComment = flag\<rparr>
             (splitNL (removeCR inp)) of
        Inl err \<Rightarrow> Inl err
      | Inr st \<Rightarrow>
          Inr (if lastLine st = code then out st @ [NL] @ ''```'' @ [NL] else out st,
               media st, inComment st))"

definition noFiles :: files where
  "noFiles = (\<lambda>path. None)"

section \<open>Auxiliary notions\<close>

text \<open>
  The least number of characters a match of an expression consumes, whether an
  expression is free of \<open>^\<close>, and the relation between a thread and a thread reached
  from it after \<open>n\<close> characters.
\<close>

fun minlen :: "re \<Rightarrow> nat" where
  "minlen (One a) = 1"
| "minlen (Plus a) = 1"
| "minlen (Seq r1 r2) = minlen r1 + minlen r2"
| "minlen (Alt r1 r2) = min (minlen r1) (minlen r2)"
| "minlen (Grp k r) = minlen r"
| "minlen r = 0"

fun bolfree :: "re \<Rightarrow> bool" where
  "bolfree Bol = False"
| "bolfree (Seq r1 r2) = (bolfree r1 \<and> bolfree r2)"
| "bolfree (Alt r1 r2) = (bolfree r1 \<and> bolfree r2)"
| "bolfree (Grp k r) = bolfree r"
| "bolfree r = True"

definition span :: "thread \<Rightarrow> nat \<Rightarrow> thread \<Rightarrow> bool" where
  "span t n u = (case t of (i, s, g) \<Rightarrow> case u of (j, s', g') \<Rightarrow>
      j = i + n \<and> n \<le> length s \<and> s' = drop n s \<and> length g' = length g)"


text \<open>Moving a thread's offset.\<close>

definition shift :: "nat \<Rightarrow> thread \<Rightarrow> thread" where
  "shift d t = (case t of (j, s, g) \<Rightarrow> (j + d, s, g))"

section \<open>The snippet in closed form\<close>

text \<open>
  The lines the loop of \<open>getHTMLSnippet\<close> gathers: those from the first line with the
  start marker up to, and without, the first line that has the end marker and not the
  start marker; lines with the start marker are left out.
\<close>

definition copyRegion :: "string list \<Rightarrow> string list" where
  "copyRegion lines =
     filter (\<lambda>l. \<not> contains l startMarker)
       (takeWhile (\<lambda>l. contains l startMarker \<or> \<not> contains l endMarker)
          (dropWhile (\<lambda>l. \<not> contains l startMarker) lines))"

text \<open>
  The snippet of a file's lines for a given way of trimming a line: every line of the
  region trimmed and followed by a line feed, and one more line feed at the end.
\<close>

definition snippetOf :: "(string \<Rightarrow> string) \<Rightarrow> string list \<Rightarrow> string" where
  "snippetOf trimLine lines = concat (map (\<lambda>l. trimLine l @ [NL]) (copyRegion lines)) @ [NL]"

text \<open>The specification's trimming: tabs removed at the right end of the line only.\<close>

definition rtrimTabs :: "string \<Rightarrow> string" where
  "rtrimTabs s = rev (dropWhile (\<lambda>c. c = TAB) (rev s))"

text \<open>
  An export file whose one snippet line is \<open><div>\<close> between two tabs, and two file
  systems that hold it: under the name \<open>a.html\<close>, and under that name with a space
  at its end.
\<close>

definition tabbedHtml :: string where
  "tabbedHtml = startMarker @ [NL, TAB] @ ''<div>'' @ [TAB, NL] @ endMarker"

definition hypeFiles :: files where
  "hypeFiles = (\<lambda>path. if path = ''a.html'' then Some tabbedHtml else None)"

definition spacedFiles :: files where
  "spacedFiles = (\<lambda>path. if path = ''a.html '' then Some tabbedHtml else None)"

text \<open>
  What holds of a path in the media set, given the lines of the input: it is not
  empty, and either it has no space or tab at its ends or it comes from the Hype tag of
  a line.
\<close>

definition pathOk :: "string list \<Rightarrow> string \<Rightarrow> bool" where
  "pathOk ls p \<longleftrightarrow> p \<noteq> [] \<and>
     (trim p [SP, TAB] = p
      \<or> (\<exists>l\<in>set ls. 1 < length (FindStringSubmatch hypePtrn l)
            \<and> p = replaceHtml (FindStringSubmatch hypePtrn l ! 1)))"

section \<open>Properties of the matcher\<close>

lemma star_span: "u \<in> set (star a i s g) \<Longrightarrow> \<exists>n. span (i, s, g) n u"
proof (induction s arbitrary: i)
  case Nil
  then show ?case by (auto simp: span_def)
next
  case (Cons c cs)
  from Cons.prems consider "u = (i, c # cs, g)" | "u \<in> set (star a (Suc i) cs g)"
    by (auto split: if_splits)
  then show ?case
  proof cases
    case 1
    then show ?thesis by (auto simp: span_def intro: exI [of _ 0])
  next
    case 2
    from Cons.IH [OF this] obtain n where "span (Suc i, cs, g) n u" ..
    then have "span (i, c # cs, g) (Suc n) u" by (auto simp: span_def)
    then show ?thesis ..
  qed
qed

lemma one_span: "u \<in> set (one a i s g) \<Longrightarrow> span (i, s, g) (Suc 0) u"
  by (cases s) (auto simp: span_def split: if_splits)

lemma span_trans: "span t n u \<Longrightarrow> span u m v \<Longrightarrow> span t (n + m) v"
  by (auto simp: span_def add.commute split: prod.splits)

lemma span_refl: "span t 0 t"
  by (auto simp: span_def split: prod.splits)

lemma run_span: "u \<in> set (run r t) \<Longrightarrow> \<exists>n. minlen r \<le> n \<and> span t n u"
proof (induction r arbitrary: t u)
  case Eps
  then show ?case by (auto intro: span_refl)
next
  case (One a)
  then show ?case by (cases t) (auto dest!: one_span intro: exI [of _ "Suc 0"])
next
  case (Opt a)
  then show ?case by (cases t) (auto dest: one_span intro: span_refl)
next
  case (Star a)
  then show ?case by (cases t) (auto dest: star_span)
next
  case (Plus a)
  obtain i s g where t: "t = (i, s, g)" by (cases t) auto
  from Plus t obtain v where v: "v \<in> set (one a i s g)"
    and u: "u \<in> set (star a (fst v) (fst (snd v)) (snd (snd v)))"
    by (auto simp: case_prod_beta)
  from star_span [OF u] obtain n where "span v n u" by auto
  with one_span [OF v] have "span t (Suc 0 + n) u" unfolding t by (rule span_trans)
  then show ?case by auto
next
  case (Seq r1 r2)
  then obtain v where v: "v \<in> set (run r1 t)" and u: "u \<in> set (run r2 v)" by auto
  from Seq.IH(1) [OF v] obtain n where n: "minlen r1 \<le> n" "span t n v" by auto
  from Seq.IH(2) [OF u] obtain m where m: "minlen r2 \<le> m" "span v m u" by auto
  from n m have "minlen (Seq r1 r2) \<le> n + m" "span t (n + m) u"
    by (auto intro: span_trans)
  then show ?case by blast
next
  case (Alt r1 r2)
  then consider "u \<in> set (run r1 t)" | "u \<in> set (run r2 t)" by auto
  then show ?case
  proof cases
    case 1
    from Alt.IH(1) [OF this] show ?thesis by (auto intro: min.coboundedI1)
  next
    case 2
    from Alt.IH(2) [OF this] show ?thesis by (auto intro: min.coboundedI2)
  qed
next
  case (Grp k r)
  obtain i s g where t: "t = (i, s, g)" by (cases t) auto
  from Grp.prems t obtain j s' g' where v: "(j, s', g') \<in> set (run r t)"
    and u: "u = (j, s', g'[k := take (j - i) s])"
    by auto
  from Grp.IH [OF v] obtain n where "minlen r \<le> n" "span t n (j, s', g')" by auto
  then have "minlen (Grp k r) \<le> n" "span t n u" by (auto simp: span_def t u)
  then show ?case by blast
next
  case Bol
  then show ?case by (cases t) (auto split: if_splits intro: span_refl)
next
  case Eol
  then show ?case by (cases t) (auto split: if_splits intro: span_refl)
qed

lemma search_span:
  "search r i s g = Some (a, u) \<Longrightarrow>
     \<exists>d n. a = i + d \<and> d \<le> length s \<and> minlen r \<le> n \<and> span (a, drop d s, g) n u"
proof (induction s arbitrary: i)
  case Nil
  then have "u \<in> set (run r (i, [], g))" "a = i" by (auto split: list.splits)
  from run_span [OF this(1)] this(2) show ?case by auto
next
  case (Cons c cs)
  show ?case
  proof (cases "run r (i, c # cs, g)")
    case Nil
    with Cons.prems have "search r (Suc i) cs g = Some (a, u)" by simp
    from Cons.IH [OF this] obtain d n where
      "a = Suc i + d" "d \<le> length cs" "minlen r \<le> n" "span (a, drop d cs, g) n u" by blast
    then have "a = i + Suc d \<and> Suc d \<le> length (c # cs) \<and> minlen r \<le> n
        \<and> span (a, drop (Suc d) (c # cs), g) n u" by simp
    then show ?thesis by blast
  next
    case (Cons v vs)
    with Cons.prems have "a = i" "u = v" by auto
    with Cons have "u \<in> set (run r (a, c # cs, g))" by simp
    from run_span [OF this] \<open>a = i\<close> show ?thesis by fastforce
  qed
qed


lemma seqs_Nil: "seqs [] = Eps"
  by (simp add: seqs_def)

lemma seqs_Cons: "seqs (r # rs) = Seq r (seqs rs)"
  by (simp add: seqs_def)

lemma lit_Nil: "lit [] = Eps"
  by (simp add: lit_def seqs_def)

lemma lit_Cons: "lit (c # w) = Seq (One (Lit c)) (lit w)"
  by (simp add: lit_def seqs_def)

lemma run_lit:
  "run (lit w) (i, s, g) = (if prefix w s then [(i + length w, drop (length w) s, g)] else [])"
proof (induction w arbitrary: i s)
  case Nil
  then show ?case by (simp add: lit_Nil)
next
  case (Cons c w)
  show ?case
  proof (cases s)
    case Nil
    then show ?thesis by (simp add: lit_Cons)
  next
    case (Cons x xs)
    then show ?thesis by (simp add: lit_Cons Cons.IH)
  qed
qed

lemma star_concat:
  assumes "\<And>c cs j. accepts a c \<Longrightarrow> f (j, c # cs, g) = []"
  shows "concat (map f (star a i s g)) =
           f (i + length (takeWhile (accepts a) s), dropWhile (accepts a) s, g)"
  using assms by (induction s arbitrary: i) auto

lemma star_caps: "u \<in> set (star a i s g) \<Longrightarrow> snd (snd u) = g"
  by (induction s arbitrary: i) (auto split: if_splits)

lemma one_caps: "u \<in> set (one a i s g) \<Longrightarrow> snd (snd u) = g"
  by (cases s) (auto split: if_splits)

lemma run_caps: "ngroups r = 0 \<Longrightarrow> u \<in> set (run r t) \<Longrightarrow> snd (snd u) = snd (snd t)"
proof (induction r arbitrary: t u)
  case (Plus a)
  obtain i s g where t: "t = (i, s, g)" by (cases t) auto
  from Plus t obtain v where v: "v \<in> set (one a i s g)"
    and u: "u \<in> set (star a (fst v) (fst (snd v)) (snd (snd v)))"
    by (auto simp: case_prod_beta)
  from star_caps [OF u] one_caps [OF v] show ?case by (simp add: t)
next
  case (Seq r1 r2)
  then obtain v where "v \<in> set (run r1 t)" "u \<in> set (run r2 v)" by auto
  with Seq show ?case by simp
qed (cases t; auto dest: star_caps one_caps split: if_splits)+

text \<open>Offsets are relative: without \<open>^\<close>, a match does not depend on where it starts.\<close>

lemma star_shift: "star a (i + d) s g = map (shift d) (star a i s g)"
proof (induction s arbitrary: i)
  case Nil
  then show ?case by (simp add: shift_def)
next
  case (Cons c cs)
  from Cons [of "Suc i"] show ?case by (simp add: shift_def)
qed

lemma one_shift: "one a (i + d) s g = map (shift d) (one a i s g)"
  by (cases s) (auto simp: shift_def)

lemma run_shift: "bolfree r \<Longrightarrow> run r (i + d, s, g) = map (shift d) (run r (i, s, g))"
proof (induction r arbitrary: i s g)
  case (Plus a)
  have "\<And>v. (case shift d v of (j, s', g') \<Rightarrow> star a j s' g') =
            map (shift d) (case v of (j, s', g') \<Rightarrow> star a j s' g')"
    by (auto simp: shift_def star_shift split: prod.splits)
  then show ?case
    by (simp add: one_shift map_concat comp_def)
next
  case (Seq r1 r2)
  have "\<And>v. run r2 (shift d v) = map (shift d) (run r2 v)"
    using Seq by (auto simp: shift_def split: prod.splits)
  with Seq show ?case
    by (simp add: map_concat comp_def)
next
  case (Grp k r)
  then show ?case
    by (auto simp: shift_def split: prod.splits dest!: run_span simp: span_def)
qed (auto simp: shift_def star_shift one_shift)

lemma search_shift_None:
  "bolfree r \<Longrightarrow> search r (i + d) s g = None \<longleftrightarrow> search r i s g = None"
proof (induction s arbitrary: i)
  case Nil
  then show ?case by (simp add: run_shift split: list.splits)
next
  case (Cons c cs)
  from Cons.prems have "run r (i + d, c # cs, g) = [] \<longleftrightarrow> run r (i, c # cs, g) = []"
    by (simp add: run_shift)
  moreover from Cons have "search r (Suc i + d) cs g = None \<longleftrightarrow> search r (Suc i) cs g = None"
    by blast
  ultimately show ?case by (auto split: list.splits)
qed

text \<open>An expression that begins with \<open>^\<close> matches at offset 0 or nowhere.\<close>

lemma search_anchored:
  "search (Seq Bol r) (Suc i) s g = None"
  by (induction s arbitrary: i) auto

lemma FindString_nonempty:
  assumes "0 < minlen r"
  shows "FindString r s \<noteq> [] \<longleftrightarrow> doExecute r s 0 \<noteq> None"
proof (cases "doExecute r s 0")
  case None
  then show ?thesis by (simp add: FindString_def)
next
  case (Some m)
  obtain a b s' g' where m: "m = (a, b, s', g')" by (cases m) auto
  from Some m have "search r 0 s (replicate (ngroups r) []) = Some (a, b, s', g')"
    by (simp add: doExecute_def)
  from search_span [OF this] obtain d n where
    "a = d" "d \<le> length s" "minlen r \<le> n" "span (a, drop d s, replicate (ngroups r) []) n (b, s', g')"
    by auto
  with assms have "b - a = n" "0 < n" "n \<le> length (drop a s)"
    by (auto simp: span_def)
  then have "take (b - a) (drop a s) \<noteq> []" by auto
  with Some m show ?thesis by (simp add: FindString_def)
qed


section \<open>The comment patterns\<close>

lemma ws_chars: "accepts ws c \<longleftrightarrow> c \<in> {TAB, NL, FF, CR, SP}"
  by (auto simp: ws_def)

lemma doExecute_anchored:
  "doExecute (Seq Bol r) s 0 =
     (case run r (0, s, replicate (ngroups r) []) of [] \<Rightarrow> None | t # _ \<Rightarrow> Some (0, t))"
  by (cases s) (simp_all add: doExecute_def search_anchored split: list.splits)

lemma ngroups_lit: "ngroups (lit w) = 0"
  by (induction w) (simp_all add: lit_Nil lit_Cons)

lemma run_after_ws:
  assumes "\<not> accepts ws x"
  shows "run (Seq (Star ws) (Seq (lit (x # w)) r)) (i, s, g) \<noteq> [] \<longleftrightarrow>
           prefix (x # w) (dropWhile (accepts ws) s) \<and>
           run r (i + length (takeWhile (accepts ws) s) + length (x # w),
                  drop (length (x # w)) (dropWhile (accepts ws) s), g) \<noteq> []"
proof -
  have "\<And>c cs j. accepts ws c \<Longrightarrow> run (Seq (lit (x # w)) r) (j, c # cs, g) = []"
    using assms by (auto simp: run_lit)
  from star_concat [of ws "run (Seq (lit (x # w)) r)" g i s, OF this]
  show ?thesis by (simp add: run_lit)
qed

lemma opt_nonempty: "run (Seq (Opt a) Eps) t \<noteq> []"
  by (cases t) simp

lemma comment_iff:
  "FindString commentPtrn s \<noteq> [] \<longleftrightarrow> prefix ''//'' (dropWhile (accepts ws) s)"
proof -
  have "0 < minlen commentPtrn"
    by (simp add: commentPtrn_def seqs_Cons seqs_Nil lit_Cons lit_Nil)
  then have "FindString commentPtrn s \<noteq> [] \<longleftrightarrow> doExecute commentPtrn s 0 \<noteq> None"
    by (rule FindString_nonempty)
  also have "\<dots> \<longleftrightarrow> run (seqs [Star ws, lit ''//'', Opt ws]) (0, s, []) \<noteq> []"
    by (simp add: commentPtrn_def seqs_Cons seqs_Nil doExecute_anchored ngroups_lit
        del: run.simps split: list.splits)
  also have "\<dots> \<longleftrightarrow> prefix ''//'' (dropWhile (accepts ws) s)"
    unfolding seqs_Cons seqs_Nil
    by (subst run_after_ws) (simp_all add: ws_chars opt_nonempty)
  finally show ?thesis .
qed

lemma commentStart_iff:
  "FindString commentStartPtrn s \<noteq> [] \<longleftrightarrow> prefix ''/*'' (dropWhile (accepts ws) s)"
proof -
  have "0 < minlen commentStartPtrn"
    by (simp add: commentStartPtrn_def seqs_Cons seqs_Nil lit_Cons lit_Nil)
  then have "FindString commentStartPtrn s \<noteq> [] \<longleftrightarrow> doExecute commentStartPtrn s 0 \<noteq> None"
    by (rule FindString_nonempty)
  also have "\<dots> \<longleftrightarrow> run (seqs [Star ws, lit ''/*'', Opt ws]) (0, s, []) \<noteq> []"
    by (simp add: commentStartPtrn_def seqs_Cons seqs_Nil doExecute_anchored ngroups_lit
        del: run.simps split: list.splits)
  also have "\<dots> \<longleftrightarrow> prefix ''/*'' (dropWhile (accepts ws) s)"
    unfolding seqs_Cons seqs_Nil
    by (subst run_after_ws) (simp_all add: ws_chars opt_nonempty)
  finally show ?thesis .
qed

section \<open>The classifier on a one-line block comment\<close>

text \<open>
  C5.  A line that matches the opener pattern and the closer pattern, such as
  \<^verbatim>\<open>/* x */\<close>, is a comment line and leaves the flag set: the
  opener is tested before the closer, and a line that matches the opener cannot match
  the pattern of \<^verbatim>\<open>//\<close> comments, which is tested first.
\<close>

theorem one_line_block_comment_opens:
  assumes "FindString commentStartPtrn line \<noteq> []" and "FindString commentEndPtrn line \<noteq> []"
  shows "commentFinder flag line = (True, True)"
proof -
  from assms(1) have "prefix ''/*'' (dropWhile (accepts ws) line)"
    by (simp only: commentStart_iff)
  then have "\<not> prefix ''//'' (dropWhile (accepts ws) line)"
    by (auto simp: prefix_def)
  then have "FindString commentPtrn line = []"
    using comment_iff [of line] by blast
  with assms(1) show ?thesis by (simp add: commentFinder_def)
qed

theorem one_line_block_comment_opens_witness:
  "FindString commentStartPtrn ''/* x */'' \<noteq> [] \<and> FindString commentEndPtrn ''/* x */'' \<noteq> []
   \<and> commentFinder False ''/* x */'' = (True, True)"
proof -
  have a: "FindString commentStartPtrn ''/* x */'' \<noteq> []" by code_simp
  have b: "FindString commentEndPtrn ''/* x */'' \<noteq> []" by code_simp
  from a b one_line_block_comment_opens [OF a b, of False] show ?thesis by simp
qed

section \<open>Lines\<close>

lemma splitNL_not_Nil: "splitNL s \<noteq> []"
  by (induction s) (auto split: list.splits)

lemma splitNL_Cons:
  "c \<noteq> NL \<Longrightarrow> splitNL (c # cs) = (c # hd (splitNL cs)) # tl (splitNL cs)"
  using splitNL_not_Nil [of cs] by (auto split: list.splits)

lemma splitNL_append: "splitNL (a @ NL # b) = splitNL a @ splitNL b"
proof (induction a)
  case Nil
  then show ?case by simp
next
  case (Cons c a)
  show ?case
  proof (cases "c = NL")
    case True
    with Cons show ?thesis by simp
  next
    case False
    with Cons show ?thesis
      using splitNL_not_Nil [of a] by (cases "splitNL a") (simp_all add: splitNL_Cons)
  qed
qed

lemma splitNL_single: "NL \<notin> set s \<Longrightarrow> splitNL s = [s]"
  by (induction s) auto


lemma removeCR_append: "removeCR (a @ b) = removeCR a @ removeCR b"
  by (simp add: removeCR_def)

lemma removeCR_id: "CR \<notin> set s \<Longrightarrow> removeCR s = s"
  by (induction s) (auto simp: removeCR_def)

section \<open>The loop of convert\<close>

lemma convertLines_append:
  "convertLines fs st (xs @ ys) =
     (case convertLines fs st xs of Inl err \<Rightarrow> Inl err | Inr st' \<Rightarrow> convertLines fs st' ys)"
  by (induction xs arbitrary: st) (auto split: sum.splits)

lemma FindString_empty:
  "FindString commentPtrn [] = []" "FindString commentStartPtrn [] = []"
  "FindString commentEndPtrn [] = []" "FindString directivePtrn [] = []"
  by code_simp+

lemma Submatch_empty:
  "FindStringSubmatch imagePtrn [] = []" "FindStringSubmatch hypePtrn [] = []"
  by code_simp+

lemma Replace_empty: "ReplaceAllString allCommentDelims [] [] = []"
  by code_simp

lemma convertLine_blank:
  "lastLine st = comment \<Longrightarrow> convertLine fs st [] = Inr (st\<lparr>out := out st @ [NL]\<rparr>)"
  by (simp add: convertLine_def isDirective_def commentFinder_def FindString_empty
      extractMediaPath_def replaceHypeTag_def Submatch_empty Replace_empty)

lemma convertLines_blanks:
  "lastLine st = comment \<Longrightarrow>
     convertLines fs st (replicate n []) = Inr (st\<lparr>out := out st @ replicate n NL\<rparr>)"
proof (induction n arbitrary: st)
  case 0
  then show ?case by simp
next
  case (Suc n)
  have "lastLine (st\<lparr>out := out st @ [NL]\<rparr>) = comment" using Suc.prems by simp
  from Suc.IH [OF this] Suc.prems show ?case
    by (simp add: convertLine_blank replicate_app_Cons_same)
qed

lemma commentFinder_code:
  "\<not> fst (commentFinder flag line) \<Longrightarrow> commentFinder flag line = (False, False) \<and> \<not> flag"
  by (auto simp: commentFinder_def split: if_splits)

section \<open>Blank lines after a comment\<close>

text \<open>
  C7.  When the last line was a comment, any number of empty lines leaves the loop in
  that mode and adds only their line feeds to the text: no fence is opened, whether the
  classifier takes the empty line for code (flag cleared) or for a comment (flag set).
  The fence is opened at a line classified as code that is not empty: the text gets a
  line feed, the opening fence \<^verbatim>\<open>```go\<close> and the line, and the
  mode becomes code.
\<close>

theorem blank_line_defers_fence:
  "(lastLine st = comment \<longrightarrow>
      convertLines fs st (replicate n []) = Inr (st\<lparr>out := out st @ replicate n NL\<rparr>))
   \<and> (lastLine st = comment \<and> line \<noteq> [] \<and> \<not> isDirective line
        \<and> \<not> fst (commentFinder (inComment st) line) \<longrightarrow>
      convertLine fs st line =
        Inr (st\<lparr>lastLine := code, out := out st @ [NL] @ ''```go'' @ [NL] @ line @ [NL]\<rparr>))"
proof (intro conjI impI)
  assume "lastLine st = comment"
  then show "convertLines fs st (replicate n []) = Inr (st\<lparr>out := out st @ replicate n NL\<rparr>)"
    by (rule convertLines_blanks)
next
  assume a: "lastLine st = comment \<and> line \<noteq> [] \<and> \<not> isDirective line
        \<and> \<not> fst (commentFinder (inComment st) line)"
  then have "commentFinder (inComment st) line = (False, False)" "\<not> inComment st"
    using commentFinder_code [of "inComment st" line] by auto
  with a show "convertLine fs st line =
        Inr (st\<lparr>lastLine := code, out := out st @ [NL] @ ''```go'' @ [NL] @ line @ [NL]\<rparr>)"
    by (simp add: convertLine_def)
qed

theorem blank_line_defers_fence_witness:
  "lastLine \<lparr>lastLine = comment, out = ''a'' @ [NL], media = {}, inComment = False\<rparr> = comment
   \<and> ''x'' \<noteq> [] \<and> \<not> isDirective ''x'' \<and> \<not> fst (commentFinder False ''x'')
   \<and> convertLines noFiles \<lparr>lastLine = comment, out = ''a'' @ [NL], media = {}, inComment = False\<rparr> [[], []]
       = Inr \<lparr>lastLine = comment, out = ''a'' @ [NL, NL, NL], media = {}, inComment = False\<rparr>
   \<and> convertLine noFiles \<lparr>lastLine = comment, out = ''a'' @ [NL], media = {}, inComment = False\<rparr> ''x''
       = Inr \<lparr>lastLine = code, out = ''a'' @ [NL, NL] @ ''```go'' @ [NL] @ ''x'' @ [NL], media = {},
              inComment = False\<rparr>
   \<and> convert noFiles False (''// a'' @ [NL, NL] @ ''// b'') = Inr (''a'' @ [NL, NL] @ ''b'' @ [NL], {}, False)"
proof -
  let ?st = "\<lparr>lastLine = comment, out = ''a'' @ [NL], media = {}, inComment = False\<rparr>"
  have h: "\<not> isDirective ''x''" "\<not> fst (commentFinder False ''x'')" by code_simp+
  have e: "convert noFiles False (''// a'' @ [NL, NL] @ ''// b'') = Inr (''a'' @ [NL, NL] @ ''b'' @ [NL], {}, False)"
    by code_simp
  from blank_line_defers_fence [of ?st noFiles "Suc (Suc 0)" "''x''"] h e show ?thesis
    by simp
qed

section \<open>Directive lines\<close>

lemma convertLine_directive: "isDirective line \<Longrightarrow> convertLine fs st line = Inr st"
  by (simp add: convertLine_def)

lemma convertLines_directive:
  "isDirective line \<Longrightarrow>
     convertLines fs st (before @ line # after) = convertLines fs st (before @ after)"
  by (simp add: convertLines_append convertLine_directive split: sum.splits)

text \<open>
  C8.  A line that matches the directive pattern, such as
  \<^verbatim>\<open>//go:generate foo\<close>, leaves every variable of the loop, the
  classifier's flag included, as it was.  Hence the loop gives the same result with the
  line as without it, and so does \<open>convert\<close> on a text with the line between two
  line feeds and on the text without it: the line adds nothing to the output and
  nothing to the media set.
\<close>

theorem directive_line_skipped:
  assumes "isDirective line" and "NL \<notin> set line" and "CR \<notin> set line"
  shows "convertLine fs st line = Inr st
    \<and> convertLines fs st (before @ line # after) = convertLines fs st (before @ after)
    \<and> convert fs flag (a @ [NL] @ line @ [NL] @ b) = convert fs flag (a @ [NL] @ b)"
proof (intro conjI)
  from assms(1) show "convertLine fs st line = Inr st"
    by (rule convertLine_directive)
  from assms(1) show "convertLines fs st (before @ line # after) = convertLines fs st (before @ after)"
    by (rule convertLines_directive)
  have nl: "\<And>s. removeCR (NL # s) = NL # removeCR s" by (simp add: removeCR_def)
  have "splitNL (removeCR (a @ [NL] @ line @ [NL] @ b)) =
          splitNL (removeCR a) @ line # splitNL (removeCR b)"
    using assms(2,3)
    by (simp add: removeCR_append nl removeCR_id splitNL_append splitNL_single)
  moreover have "splitNL (removeCR (a @ [NL] @ b)) = splitNL (removeCR a) @ splitNL (removeCR b)"
    by (simp add: removeCR_append nl splitNL_append)
  ultimately show "convert fs flag (a @ [NL] @ line @ [NL] @ b) = convert fs flag (a @ [NL] @ b)"
    using assms(1) by (simp add: convert_def convertLines_directive)
qed

theorem directive_line_skipped_witness:
  "isDirective ''//go:generate foo''
   \<and> convertLine noFiles \<lparr>lastLine = code, out = ''x'', media = {''p''}, inComment = True\<rparr>
        ''//go:generate foo''
       = Inr \<lparr>lastLine = code, out = ''x'', media = {''p''}, inComment = True\<rparr>
   \<and> convert noFiles False (''// c'' @ [NL] @ ''//go:generate foo'' @ [NL] @ ''x'')
       = convert noFiles False (''// c'' @ [NL] @ ''x'')
   \<and> convert noFiles False (''// c'' @ [NL] @ ''x'')
       = Inr (''c'' @ [NL, NL] @ ''```go'' @ [NL] @ ''x'' @ [NL, NL] @ ''```'' @ [NL], {}, False)"
proof -
  have d: "isDirective ''//go:generate foo''" by code_simp
  have n: "NL \<notin> set ''//go:generate foo''" "CR \<notin> set ''//go:generate foo''" by simp_all
  have e: "convert noFiles False (''// c'' @ [NL] @ ''x'')
       = Inr (''c'' @ [NL, NL] @ ''```go'' @ [NL] @ ''x'' @ [NL, NL] @ ''```'' @ [NL], {}, False)"
    by code_simp
  from directive_line_skipped [OF d n, of noFiles
      "\<lparr>lastLine = code, out = ''x'', media = {''p''}, inComment = True\<rparr>" "[]" "[]" False "''// c''" "''x''"]
    d e show ?thesis by simp
qed

section \<open>Input without comment lines\<close>






section \<open>Capture groups\<close>

lemma search_run:
  "search r i s g = Some (a, u) \<Longrightarrow> \<exists>d. a = i + d \<and> u \<in> set (run r (a, drop d s, g))"
proof (induction s arbitrary: i)
  case Nil
  then show ?case by (auto split: list.splits)
next
  case (Cons c cs)
  show ?case
  proof (cases "run r (i, c # cs, g)")
    case Nil
    with Cons.prems have "search r (Suc i) cs g = Some (a, u)" by simp
    from Cons.IH [OF this] obtain d where "a = Suc i + d" "u \<in> set (run r (a, drop d cs, g))"
      by blast
    then have "a = i + Suc d \<and> u \<in> set (run r (a, drop (Suc d) (c # cs), g))" by simp
    then show ?thesis by blast
  next
    case (Cons v vs)
    with Cons.prems have "a = i + 0 \<and> u \<in> set (run r (a, drop 0 (c # cs), g))" by auto
    then show ?thesis by blast
  qed
qed

lemma concat_map_nested:
  "concat (map (\<lambda>v. concat (map f (h v))) zs) = concat (map f (concat (map h zs)))"
  by (induction zs) simp_all

lemma run_seqs_append:
  "run (seqs (xs @ ys)) t = concat (map (run (seqs ys)) (run (seqs xs) t))"
proof (induction xs arbitrary: t)
  case Nil
  then show ?case by (simp add: seqs_Nil)
next
  case (Cons x xs)
  have "run (seqs ((x # xs) @ ys)) t = concat (map (run (seqs (xs @ ys))) (run x t))"
    by (simp add: seqs_Cons)
  also have "\<dots> = concat (map (\<lambda>v. concat (map (run (seqs ys)) (run (seqs xs) v))) (run x t))"
  proof -
    have "run (seqs (xs @ ys)) = (\<lambda>v. concat (map (run (seqs ys)) (run (seqs xs) v)))"
      by (rule ext) (rule Cons.IH)
    then show ?thesis by simp
  qed
  also have "\<dots> = concat (map (run (seqs ys)) (concat (map (run (seqs xs)) (run x t))))"
    by (rule concat_map_nested)
  finally show ?case by (simp add: seqs_Cons)
qed

lemma ngroups_seqs: "ngroups (seqs rs) = sum_list (map ngroups rs)"
  by (induction rs) (simp_all add: seqs_Nil seqs_Cons)

lemma group_captured:
  assumes u: "u \<in> set (run (seqs (pre @ Grp 0 r # post)) (i, s, [[]]))"
    and pre: "sum_list (map ngroups pre) = 0" and post: "sum_list (map ngroups post) = 0"
    and len: "0 < minlen r" and r: "ngroups r = 0"
  shows "\<exists>p. p \<noteq> [] \<and> snd (snd u) = [p]"
proof -
  from u obtain v where v: "v \<in> set (run (seqs pre) (i, s, [[]]))"
    and u': "u \<in> set (run (Seq (Grp 0 r) (seqs post)) v)"
    by (auto simp: run_seqs_append seqs_Cons)
  from run_caps [OF _ v] pre have cv: "snd (snd v) = [[]]"
    by (simp add: ngroups_seqs)
  obtain j s' where v': "v = (j, s', [[]])" using cv by (cases v) auto
  from u' v' obtain k s'' g'' where w: "(k, s'', g'') \<in> set (run r (j, s', [[]]))"
    and u'': "u \<in> set (run (seqs post) (k, s'', g''[0 := take (k - j) s']))"
    by auto
  from run_caps [OF r w] have g'': "g'' = [[]]" by simp
  from run_span [OF w] len have "0 < k - j" "k - j \<le> length s'"
    by (auto simp: span_def)
  then have ne: "take (k - j) s' \<noteq> []" by auto
  from run_caps [OF _ u''] post g'' have "snd (snd u) = [take (k - j) s']"
    by (simp add: ngroups_seqs)
  with ne show ?thesis by blast
qed

lemma imagePtrn_captured:
  assumes "doExecute imagePtrn s 0 = Some (a, b, s', g)"
  shows "\<exists>p. p \<noteq> [] \<and> g = [p]"
proof -
  have n: "ngroups imagePtrn = 1"
    by (simp add: imagePtrn_def ngroups_seqs ngroups_lit)
  from assms n have "search imagePtrn 0 s [[]] = Some (a, b, s', g)"
    by (simp add: doExecute_def)
  from search_run [OF this] obtain d where
    u: "(b, s', g) \<in> set (run imagePtrn (a, drop d s, [[]]))" by blast
  have "imagePtrn = seqs ([One (NCls [BQ]), lit ''!['', Plus (NCls '']''), lit '']('', Star (Lit SP)]
      @ Grp 0 (Plus (NCls [DQ, CHR '')''])) # [Star (Lit SP), One (Cls [DQ, CHR '')''])])"
    by (simp add: imagePtrn_def)
  with u have "(b, s', g) \<in> set (run (seqs ([One (NCls [BQ]), lit ''!['', Plus (NCls '']''), lit '']('', Star (Lit SP)]
      @ Grp 0 (Plus (NCls [DQ, CHR '')''])) # [Star (Lit SP), One (Cls [DQ, CHR '')''])])) (a, drop d s, [[]]))"
    by simp
  from group_captured [OF this] show ?thesis by (simp add: ngroups_lit)
qed

lemma imageTag_submatch:
  "FindStringSubmatch imagePtrn s = [] \<or>
   (\<exists>m p. p \<noteq> [] \<and> FindStringSubmatch imagePtrn s = [m, p])"
proof (cases "doExecute imagePtrn s 0")
  case None
  then show ?thesis by (simp add: FindStringSubmatch_def)
next
  case (Some x)
  obtain a b s' g where x: "x = (a, b, s', g)" by (cases x) auto
  from imagePtrn_captured [of s a b s' g] Some x obtain p where "p \<noteq> []" "g = [p]" by auto
  with Some x show ?thesis by (simp add: FindStringSubmatch_def)
qed

lemma extractMediaPath_cases:
  "extractMediaPath line = Inr [] \<or>
   (\<exists>m p. p \<noteq> [] \<and> FindStringSubmatch imagePtrn line = [m, p]
      \<and> extractMediaPath line = Inr (trim p [SP, TAB]))"
  using imageTag_submatch [of line] by (auto simp: extractMediaPath_def)

text \<open>
  C10.  \<open>extractMediaPath\<close> returns no error on any line.  The image pattern has
  one group, so \<open>FindStringSubmatch\<close> returns nothing or the match and the text of
  the group, never a slice of length 1; and the group is \<^verbatim>\<open>[^"\)]+\<close>,
  so the text captured is not empty.
\<close>

theorem extractMediaPath_never_fails:
  "(\<exists>path. extractMediaPath line = Inr path)
   \<and> length (FindStringSubmatch imagePtrn line) \<noteq> 1
   \<and> (FindStringSubmatch imagePtrn line = []
       \<or> (length (FindStringSubmatch imagePtrn line) = 2 \<and> FindStringSubmatch imagePtrn line ! 1 \<noteq> []))"
  using imageTag_submatch [of line] extractMediaPath_cases [of line] by auto

section \<open>Stripping the delimiter of a line comment\<close>

lemma search_allCommentDelims_later:
  "search allCommentDelims (Suc i) s g = search commentEndPtrn (Suc i) s g"
proof (induction s arbitrary: i)
  case Nil
  then show ?case
    by (simp add: allCommentDelims_def commentPtrn_def commentStartPtrn_def seqs_Cons)
next
  case (Cons c cs)
  have "run allCommentDelims (Suc i, c # cs, g) = run commentEndPtrn (Suc i, c # cs, g)"
    by (simp add: allCommentDelims_def commentPtrn_def commentStartPtrn_def seqs_Cons)
  with Cons [of "Suc i"] show ?case by (simp split: list.splits)
qed

lemma ngroups_delims:
  "ngroups commentPtrn = 0" "ngroups commentStartPtrn = 0" "ngroups commentEndPtrn = 0"
  "ngroups allCommentDelims = 0" "ngroups directivePtrn = 0"
  by (simp_all add: allCommentDelims_def commentPtrn_def commentStartPtrn_def commentEndPtrn_def
      directivePtrn_def ngroups_seqs ngroups_lit)

lemma commentEnd_absent:
  assumes "FindString commentEndPtrn s = []"
  shows "search allCommentDelims (Suc i) s [] = None"
proof -
  have "0 < minlen commentEndPtrn"
    by (simp add: commentEndPtrn_def seqs_Cons seqs_Nil lit_Cons lit_Nil)
  from FindString_nonempty [OF this, of s] assms have "doExecute commentEndPtrn s 0 = None"
    by (cases "doExecute commentEndPtrn s 0") auto
  then have "search commentEndPtrn 0 s [] = None"
    by (simp add: doExecute_def ngroups_delims)
  moreover have "bolfree commentEndPtrn"
    by (simp add: commentEndPtrn_def seqs_Cons seqs_Nil lit_Cons lit_Nil)
  ultimately have "search commentEndPtrn (0 + Suc i) s [] = None"
    by (simp only: search_shift_None)
  then show ?thesis by (simp add: search_allCommentDelims_later)
qed

lemma run_commentPtrn_prefix:
  "run commentPtrn (0, CHR ''/'' # CHR ''/'' # SP # rest, g) = [(3, rest, g), (2, SP # rest, g)]"
  by (simp add: commentPtrn_def seqs_Cons seqs_Nil run_lit ws_def)

lemma strip_line_comment:
  assumes "FindString commentEndPtrn rest = []"
  shows "ReplaceAllString allCommentDelims (''// '' @ rest) [] = rest"
proof -
  let ?src = "CHR ''/'' # CHR ''/'' # SP # rest"
  have first: "doExecute allCommentDelims ?src 0 = Some (0, 3, rest, [])"
    using run_commentPtrn_prefix [of rest "[]"]
    by (simp add: doExecute_def ngroups_delims allCommentDelims_def del: run.simps(6))
  have "doExecute allCommentDelims ?src 3 = search allCommentDelims (Suc 2) rest []"
    by (simp add: doExecute_def ngroups_delims)
  with commentEnd_absent [OF assms, of 2]
  have second: "doExecute allCommentDelims ?src 3 = None" by simp
  have "replaceLoop allCommentDelims ?src [] 0 0 [] = replaceLoop allCommentDelims ?src [] 3 3 []"
    using replaceLoop.simps [of allCommentDelims ?src "[]" 0 0 "[]"]
    by (simp add: first del: replaceLoop.simps)
  also have "\<dots> = rest"
    using replaceLoop.simps [of allCommentDelims ?src "[]" 3 3 "[]"]
    by (simp add: second del: replaceLoop.simps)
  finally show ?thesis by (simp add: ReplaceAllString_def)
qed

lemma line_comment_classified:
  "commentFinder flag (''// '' @ rest) = (True, flag)"
  using comment_iff [of "''// '' @ rest"] by (simp add: commentFinder_def ws_chars)

lemma line_comment_not_directive: "\<not> isDirective (''// '' @ rest)"
proof -
  have "doExecute directivePtrn (''// '' @ rest) 0 = None"
    by (simp add: directivePtrn_def seqs_Cons seqs_Nil doExecute_anchored run_lit ngroups_lit)
  then show ?thesis by (simp add: isDirective_def FindString_def)
qed

text \<open>
  C9.  Converting one line that consists of \<^verbatim>\<open>//\<close>, one space and a
  rest gives the rest followed by a line feed: the delimiter and one space are removed
  and every further space is kept.  The rest is any text in which the closing delimiter
  of a block comment does not match (it would be removed too), and the line has no Hype
  tag (it would be replaced by a snippet).
\<close>

theorem line_comment_stripped:
  assumes "FindString commentEndPtrn rest = []"
    and "FindStringSubmatch hypePtrn (''// '' @ rest) = []"
    and "NL \<notin> set rest" and "CR \<notin> set rest"
  shows "\<exists>paths. convert fs flag (''// '' @ rest) = Inr (rest @ [NL], paths, flag)"
proof -
  let ?line = "''// '' @ rest"
  let ?st = "\<lparr>lastLine = neither, out = [], media = {}, inComment = flag\<rparr>"
  from assms(3,4) have lines: "splitNL (removeCR ?line) = [?line]"
    by (simp add: removeCR_id splitNL_single)
  from extractMediaPath_cases [of ?line] obtain path where path: "extractMediaPath ?line = Inr path"
    by auto
  from assms(2) have hype: "replaceHypeTag fs ?line = Inr (?line, [])"
    by (simp add: replaceHypeTag_def)
  have "convertLine fs ?st ?line =
          Inr (\<lparr>lastLine = comment, out = rest @ [NL],
                media = (if path \<noteq> [] then {path} else {}), inComment = flag\<rparr>)"
    unfolding convertLine_def
    by (simp add: line_comment_not_directive line_comment_classified path hype
        strip_line_comment [OF assms(1)] del: append.simps)
  then show ?thesis by (simp add: convert_def lines del: append.simps)
qed

theorem line_comment_stripped_witness:
  "FindString commentEndPtrn ''  text'' = []
   \<and> FindStringSubmatch hypePtrn (''// '' @ ''  text'') = []
   \<and> NL \<notin> set ''  text'' \<and> CR \<notin> set ''  text''
   \<and> convert noFiles False ''//   text'' = Inr (''  text'' @ [NL], {}, False)
   \<and> convert noFiles False ''// text'' = Inr (''text'' @ [NL], {}, False)"
proof -
  have a: "FindString commentEndPtrn ''  text'' = []" by code_simp
  have b: "FindStringSubmatch hypePtrn (''// '' @ ''  text'') = []" by code_simp
  have c: "NL \<notin> set ''  text''" "CR \<notin> set ''  text''" by simp_all
  have d: "convert noFiles False ''//   text'' = Inr (''  text'' @ [NL], {}, False)" by code_simp
  have e: "convert noFiles False ''// text'' = Inr (''text'' @ [NL], {}, False)" by code_simp
  from line_comment_stripped [OF a b c, of noFiles False] a b c d e show ?thesis by simp
qed

section \<open>The snippet loader\<close>

lemma trim_tabs: "trim l [TAB, TAB] = trim l [TAB]"
  by (simp add: trim_def)

lemma snippetLoop_on:
  "snippetLoop True acc ls =
     acc @ concat (map (\<lambda>l. trim l [TAB] @ [NL])
       (filter (\<lambda>l. \<not> contains l startMarker)
          (takeWhile (\<lambda>l. contains l startMarker \<or> \<not> contains l endMarker) ls)))"
  by (induction ls arbitrary: acc) (simp_all add: trim_tabs)

lemma snippetLoop_off:
  "snippetLoop False acc ls = acc @ concat (map (\<lambda>l. trim l [TAB] @ [NL]) (copyRegion ls))"
  by (induction ls arbitrary: acc) (simp_all add: copyRegion_def snippetLoop_on)

text \<open>
  C6, as the program has it.  The snippet is made of the lines from the first line with
  the start marker up to the first line that has the end marker and not the start
  marker, where the scan ends; neither of these two lines, nor any other line with the
  start marker, is part of it.  Each line of it is trimmed of tabs at both ends, since
  \<open>strings.Trim\<close> trims both, and followed by a line feed; one more line feed ends
  the snippet.  A file that cannot be read gives the error.
\<close>

theorem getHTMLSnippet_region:
  "getHTMLSnippet fs path =
     (case fs path of
        None \<Rightarrow> Inl (UnableToOpenHypeFile path)
      | Some hypeHTML \<Rightarrow> Inr (snippetOf (\<lambda>l. trim l [TAB]) (splitNL (removeCR hypeHTML))))"
  by (simp add: getHTMLSnippet_def snippetOf_def snippetLoop_off split: option.splits)

theorem getHTMLSnippet_region_witness:
  "getHTMLSnippet hypeFiles ''a.html'' = Inr (''<div>'' @ [NL, NL])
   \<and> snippetOf (\<lambda>l. trim l [TAB]) (splitNL (removeCR tabbedHtml)) = ''<div>'' @ [NL, NL]
   \<and> getHTMLSnippet hypeFiles ''b.html'' = Inl (UnableToOpenHypeFile ''b.html'')"
proof -
  have a: "hypeFiles ''a.html'' = Some tabbedHtml" "hypeFiles ''b.html'' = None"
    by (simp_all add: hypeFiles_def)
  have b: "snippetOf (\<lambda>l. trim l [TAB]) (splitNL (removeCR tabbedHtml)) = ''<div>'' @ [NL, NL]"
    by code_simp
  from getHTMLSnippet_region [of hypeFiles "''a.html''"] getHTMLSnippet_region [of hypeFiles "''b.html''"]
    a b show ?thesis by simp
qed

text \<open>
  C6 as the specification words it fails: a tab that begins a line of the snippet is
  removed, where trimming at the right end only would keep it.
\<close>

theorem getHTMLSnippet_trims_left:
  "getHTMLSnippet hypeFiles ''a.html'' = Inr (''<div>'' @ [NL, NL])
   \<and> snippetOf rtrimTabs (splitNL (removeCR tabbedHtml)) = TAB # ''<div>'' @ [NL, NL]"
  by code_simp

section \<open>The media set\<close>

lemma dropWhile_rev_dropWhile:
  assumes "d = [] \<or> \<not> P (hd d)"
  shows "dropWhile P (rev (dropWhile P (rev d))) = rev (dropWhile P (rev d))"
proof (cases d)
  case Nil
  then show ?thesis by simp
next
  case (Cons x xs)
  with assms have "\<not> P x" by simp
  then have "dropWhile P (rev xs @ [x]) = dropWhile P (rev xs) @ [x]"
    by (simp add: dropWhile_append3)
  with Cons \<open>\<not> P x\<close> show ?thesis by simp
qed

lemma trim_idem: "trim (trim s cutset) cutset = trim s cutset"
proof -
  let ?P = "\<lambda>c. c \<in> set cutset"
  let ?d = "dropWhile ?P s"
  have "?d = [] \<or> \<not> ?P (hd ?d)"
    using hd_dropWhile [of ?P s] by blast
  from dropWhile_rev_dropWhile [of ?d ?P, OF this]
  have a: "dropWhile ?P (rev (dropWhile ?P (rev ?d))) = rev (dropWhile ?P (rev ?d))" .
  have b: "dropWhile ?P (dropWhile ?P (rev ?d)) = dropWhile ?P (rev ?d)"
    by (rule dropWhile_idem)
  show ?thesis by (simp add: trim_def a b)
qed

lemma trim_Nil: "trim [] cutset = []"
  by (simp add: trim_def)

lemma extractMediaPath_trimmed:
  "extractMediaPath line = Inr p \<Longrightarrow> trim p [SP, TAB] = p"
  by (auto simp: extractMediaPath_def Let_def trim_idem trim_Nil split: if_splits)

lemma length_above_one: "xs \<noteq> [] \<Longrightarrow> length xs \<noteq> Suc 0 \<Longrightarrow> Suc 0 < length xs"
  by (cases xs) auto

lemma replaceHypeTag_path:
  "replaceHypeTag fs line = Inr (repl, hpath) \<Longrightarrow> hpath \<noteq> [] \<Longrightarrow>
     1 < length (FindStringSubmatch hypePtrn line)
     \<and> hpath = replaceHtml (FindStringSubmatch hypePtrn line ! 1)"
  by (auto simp: replaceHypeTag_def Let_def length_above_one split: if_splits sum.splits)

lemma convertLine_media:
  assumes "convertLine fs st l = Inr st'" and "l \<in> set ls" and "\<forall>p\<in>media st. pathOk ls p"
  shows "\<forall>p\<in>media st'. pathOk ls p"
proof (cases "isDirective l \<or> \<not> fst (commentFinder (inComment st) l)")
  case True
  with assms show ?thesis
    by (auto simp: convertLine_def Let_def split: if_splits prod.splits)
next
  case False
  obtain f where cf: "commentFinder (inComment st) l = (True, f)"
    using False by (cases "commentFinder (inComment st) l") auto
  from assms(1) False cf obtain p where p: "extractMediaPath l = Inr p"
    by (auto simp: convertLine_def Let_def split: sum.splits)
  from assms(1) False cf p obtain repl hpath where h: "replaceHypeTag fs l = Inr (repl, hpath)"
    by (auto simp: convertLine_def Let_def split: sum.splits)
  have pk: "p \<noteq> [] \<Longrightarrow> pathOk ls p"
    using extractMediaPath_trimmed [OF p] by (simp add: pathOk_def)
  have hk: "hpath \<noteq> [] \<Longrightarrow> pathOk ls hpath"
    using replaceHypeTag_path [OF h] assms(2) by (auto simp: pathOk_def)
  from assms(1) False cf p h have "media st' \<subseteq> media st \<union> {q. q \<noteq> [] \<and> (q = p \<or> q = hpath)}"
    by (auto simp: convertLine_def Let_def split: if_splits)
  with assms(3) pk hk show ?thesis by auto
qed

lemma convertLines_media:
  assumes "convertLines fs st xs = Inr st'" and "set xs \<subseteq> set ls" and "\<forall>p\<in>media st. pathOk ls p"
  shows "\<forall>p\<in>media st'. pathOk ls p"
  using assms
proof (induction xs arbitrary: st)
  case Nil
  then show ?case by simp
next
  case (Cons x xs)
  from Cons.prems(1) obtain st1 where s1: "convertLine fs st x = Inr st1"
    and s2: "convertLines fs st1 xs = Inr st'"
    by (auto split: sum.splits)
  from Cons.prems(2) have "x \<in> set ls" by simp
  from convertLine_media [OF s1 this Cons.prems(3)] have "\<forall>p\<in>media st1. pathOk ls p" .
  from Cons.IH [OF s2 _ this] Cons.prems(2) show ?case by simp
qed

text \<open>
  C3, as the program has it.  The media set is a set, so it has no duplicates.  It never
  holds the empty string.  A path that comes from an image tag has no space and no tab
  at its ends: \<open>extractMediaPath\<close> trims these two characters.  A path that comes
  from a Hype tag is the text of the tag's group with \<open>.html\<close> replaced; the
  theorem says nothing of its ends.
\<close>

theorem media_paths_shape:
  assumes "convert fs flag inp = Inr (md, paths, flag')"
  shows "[] \<notin> paths \<and>
     (\<forall>p\<in>paths. trim p [SP, TAB] = p
        \<or> (\<exists>l\<in>set (splitNL (removeCR inp)). 1 < length (FindStringSubmatch hypePtrn l)
              \<and> p = replaceHtml (FindStringSubmatch hypePtrn l ! 1)))"
proof -
  let ?st = "\<lparr>lastLine = neither, out = [], media = {}, inComment = flag\<rparr>"
  from assms obtain st' where run: "convertLines fs ?st (splitNL (removeCR inp)) = Inr st'"
    and paths: "paths = media st'"
    by (auto simp: convert_def split: sum.splits)
  have "\<forall>p\<in>media st'. pathOk (splitNL (removeCR inp)) p"
    by (rule convertLines_media [OF run]) simp_all
  with paths show ?thesis by (auto simp: pathOk_def)
qed

theorem media_paths_shape_witness:
  \<open>convert hypeFiles False (''// ![a]( pic.png  "t")'' @ [NL] @ ''// HYPE[d](a.html)'')
     = Inr (''![a]( pic.png  "t")'' @ [NL] @ ''<div>'' @ [NL, NL], {''pic.png'', ''a.hyperesources''}, False)
   \<and> [] \<notin> {''pic.png'', ''a.hyperesources''}
   \<and> trim ''pic.png'' [SP, TAB] = ''pic.png''\<close>
proof -
  have c: \<open>convert hypeFiles False (''// ![a]( pic.png  "t")'' @ [NL] @ ''// HYPE[d](a.html)'')
     = Inr (''![a]( pic.png  "t")'' @ [NL] @ ''<div>'' @ [NL, NL], {''pic.png'', ''a.hyperesources''}, False)\<close>
    by code_simp
  from media_paths_shape [OF c] c show ?thesis by (simp add: trim_def)
qed

text \<open>
  C3 as the specification words it fails.  The cutset of the trimming is a space and a
  tab, so a form feed, which the program's own \<open>\s\<close> counts as whitespace, stays
  at the head of an image path.  And \<open>replaceHypeTag\<close> does not trim: a Hype tag
  whose path is followed by a space, with the file of that name in place, puts a path
  that ends with a space into the media set.
\<close>

theorem media_path_with_outer_whitespace:
  "convert noFiles False (''// ![a]('' @ [FF] @ ''pic.png)'')
     = Inr (''![a]('' @ [FF] @ ''pic.png)'' @ [NL], {FF # ''pic.png''}, False)
   \<and> accepts ws (hd (FF # ''pic.png''))
   \<and> convert spacedFiles False ''// HYPE[d](a.html )''
     = Inr (''<div>'' @ [NL, NL], {''a.hyperesources ''}, False)
   \<and> last ''a.hyperesources '' = SP"
  by code_simp

section \<open>The flag across conversions\<close>

text \<open>
  C2 fails on the program.  \<open>convert\<close> sets \<open>lastLine\<close> and \<open>media\<close> anew at every
  call, but not the classifier's flag.  The text made of the one-line block comment
  \<^verbatim>\<open>/* x */\<close> and the line \<^verbatim>\<open>package main\<close> leaves the flag
  set, whatever files exist.  Converted next, from that flag, a text with a
  \<^verbatim>\<open>//\<close> comment and a code line has its code line taken for a comment:
  the fences are missing and the image path on the line joins the media set.  Converted
  from the cleared flag, the same text is fenced and its media set is empty.  The second
  text has no Hype tag, so no file read or written between the two conversions plays a
  part.
\<close>

theorem flag_leaks_into_next_conversion:
  \<open>convert fsA False (''/* x */'' @ [NL] @ ''package main'')
     = Inr (''x'' @ [NL] @ ''package main'' @ [NL], {}, True)
   \<and> convert fsB True (''// c'' @ [NL] @ ''x ![a](p.png)'')
     = Inr (''c'' @ [NL] @ ''x ![a](p.png)'' @ [NL], {''p.png''}, True)
   \<and> convert fsB False (''// c'' @ [NL] @ ''x ![a](p.png)'')
     = Inr (''c'' @ [NL, NL] @ ''```go'' @ [NL] @ ''x ![a](p.png)'' @ [NL, NL] @ ''```'' @ [NL],
            {}, False)\<close>
  by code_simp

section \<open>The image tag of the specification's example\<close>

text \<open>
  C4, as the program has it.  Whatever files exist and whatever the flag is, converting
  the line \<^verbatim>\<open>// ![alt](pic.png "t")\<close> yields the media set with the one
  path \<^verbatim>\<open>pic.png\<close>, and the text is the line without its comment
  delimiter: the image tag stays in the text, as Markdown needs it.
\<close>

theorem image_example_keeps_tag:
  \<open>convert fs flag ''// ![alt](pic.png "t")'' =
     Inr (''![alt](pic.png "t")\<newline>'', {''pic.png''}, flag)\<close>
  by code_simp

text \<open>
  C4 as the specification words it fails: the text that is emitted for that line
  contains the image tag literally.
\<close>

theorem image_example_tag_in_output:
  \<open>convert noFiles False ''// ![alt](pic.png "t")'' =
     Inr (''![alt](pic.png "t")\<newline>'', {''pic.png''}, False)
   \<and> contains ''![alt](pic.png "t")\<newline>'' ''![alt](pic.png "t")''\<close>
  by code_simp

end
